theory Spec2Isabelle
  imports Main
begin

section \<open>The editor interface that commands.py programs against\<close>

text \<open>
  \<^verbatim>\<open>commands.py\<close> drives the editor through \<^verbatim>\<open>sublime.Region\<close>, \<^verbatim>\<open>sublime.Selection\<close>,
  \<^verbatim>\<open>view.get_regions\<close>, \<^verbatim>\<open>view.show\<close> and \<^verbatim>\<open>sublime.error_message\<close>. None of these is
  part of the repository; they are taken as the editor's API reference describes them. A
  region is a pair of offsets \<open>(a, b)\<close>; \<open>begin\<close> is the lesser and \<open>end\<close> the greater of the
  two; \<open>contains\<close> of a point is inclusive at both ends, and a region is contained when both
  its offsets are.
\<close>

record region =
  ra :: int
  rb :: int

definition Region :: "int \<Rightarrow> int \<Rightarrow> region" where
  "Region x y = \<lparr>ra = x, rb = y\<rparr>"

definition region_begin :: "region \<Rightarrow> int" where
  "region_begin r = min (ra r) (rb r)"

definition region_end :: "region \<Rightarrow> int" where
  "region_end r = max (ra r) (rb r)"

definition contains_point :: "region \<Rightarrow> int \<Rightarrow> bool" where
  "contains_point r p = (region_begin r \<le> p \<and> p \<le> region_end r)"

definition contains_region :: "region \<Rightarrow> region \<Rightarrow> bool" where
  "contains_region r x = (contains_point r (ra x) \<and> contains_point r (rb x))"

datatype severity = WARNING | ERROR

datatype fault = IndexError | TypeError

text \<open>
  The mutable part of the editor. A \<^verbatim>\<open>Selection\<close> object is a handle (a number) into the
  editor's table of selections, so two handles with the same number are the same selection:
  \<^verbatim>\<open>sublime.Selection(view.id())\<close> is the handle \<open>view_id\<close>, \<^verbatim>\<open>view.sel()\<close> is the handle
  \<open>sel_id\<close>, and the model covers both the case where they coincide and where they differ.
  \<open>shown\<close> records the calls of \<^verbatim>\<open>view.show\<close>, \<open>dialogs\<close> those of \<^verbatim>\<open>sublime.error_message\<close>.
\<close>

record editor =
  selections :: "nat \<Rightarrow> region list"
  shown :: "region list"
  dialogs :: "string list"

record view =
  view_id :: nat
  sel_id :: nat
  get_regions :: "severity \<Rightarrow> region list"

text \<open>
  Modelled from the spec: \<^verbatim>\<open>sublime.Selection\<close> is the editor's class and is not in the
  repository. Following section 4.1 of the spec (``Warning regions followed by Error regions,
  each internally in document order''), a selection is an ordered sequence: \<open>clear\<close> empties it,
  \<open>add\<close> appends one region, \<open>add_all\<close> appends the given regions in their order, and indexing
  is Python's (negative indices count from the end, out of range raises \<open>IndexError\<close>).
\<close>

definition sel_clear :: "nat \<Rightarrow> editor \<Rightarrow> editor" where
  "sel_clear h e = e\<lparr>selections := (selections e)(h := [])\<rparr>"

definition sel_add :: "nat \<Rightarrow> region \<Rightarrow> editor \<Rightarrow> editor" where
  "sel_add h r e = e\<lparr>selections := (selections e)(h := selections e h @ [r])\<rparr>"

definition sel_add_all :: "nat \<Rightarrow> region list \<Rightarrow> editor \<Rightarrow> editor" where
  "sel_add_all h rs e = e\<lparr>selections := (selections e)(h := selections e h @ rs)\<rparr>"

definition sel_getitem :: "region list \<Rightarrow> int \<Rightarrow> fault + region" where
  "sel_getitem xs i =
     (if 0 \<le> i \<and> i < int (length xs) then Inr (xs ! nat i)
      else if i < 0 \<and> - i \<le> int (length xs) then Inr (xs ! nat (int (length xs) + i))
      else Inl IndexError)"

definition view_show :: "region \<Rightarrow> editor \<Rightarrow> editor" where
  "view_show r e = e\<lparr>shown := shown e @ [r]\<rparr>"

definition error_message :: "string \<Rightarrow> editor \<Rightarrow> editor" where
  "error_message m e = e\<lparr>dialogs := dialogs e @ [m]\<rparr>"

section \<open>persist: settings and the per-view error maps\<close>

text \<open>
  An error map is a Python dict from line number to a list of \<open>(column, message)\<close> pairs,
  kept as an association list in insertion order. \<^verbatim>\<open>persist.settings.get(key, default)\<close>
  returns the default when the key is absent.
\<close>

type_synonym error_map = "(int \<times> (int \<times> string) list) list"

record persist =
  settings :: "string \<rightharpoonup> bool"
  errors :: "nat \<rightharpoonup> error_map"

definition settings_get :: "persist \<Rightarrow> string \<Rightarrow> bool \<Rightarrow> bool" where
  "settings_get p k d = (case settings p k of None \<Rightarrow> d | Some b \<Rightarrow> b)"

section \<open>sublimelinter\_find\_error\<close>

subsection \<open>find\_mark\_within and select\_lint\_region\<close>

definition all_marks :: "view \<Rightarrow> region list" where
  "all_marks v = sort_key region_begin (get_regions v WARNING @ get_regions v ERROR)"

fun first_contained :: "region \<Rightarrow> region list \<Rightarrow> region option" where
  "first_contained region [] = None"
| "first_contained region (mark # marks) =
     (if contains_region region mark then Some mark else first_contained region marks)"

definition find_mark_within :: "view \<Rightarrow> region \<Rightarrow> region option" where
  "find_mark_within v region = first_contained region (all_marks v)"

definition select_lint_region :: "view \<Rightarrow> region \<Rightarrow> editor \<Rightarrow> editor" where
  "select_lint_region v region e =
     (let sel = sel_id v;
          e1 = sel_clear sel e;
          marked_region =
            (case find_mark_within v region of
               None \<Rightarrow> Region (region_begin region) (region_begin region)
             | Some m \<Rightarrow> m)
      in view_show marked_region (sel_add sel marked_region e1))"

subsection \<open>find\_error\<close>

text \<open>The two loops of lines 65 to 74: the first region that passes the test, or nothing.\<close>

fun scan_forward :: "int \<Rightarrow> region list \<Rightarrow> region option" where
  "scan_forward point [] = None"
| "scan_forward point (region # rest) =
     (if point < region_begin region then Some region else scan_forward point rest)"

fun scan_backward :: "int \<Rightarrow> region list \<Rightarrow> region option" where
  "scan_backward point [] = None"
| "scan_backward point (region # rest) =
     (if point > region_end region then Some region else scan_backward point rest)"

definition directional_scan :: "bool \<Rightarrow> int \<Rightarrow> region list \<Rightarrow> region option" where
  "directional_scan forward point regions =
     (if forward then scan_forward point regions else scan_backward point (rev regions))"

text \<open>Line 55: \<^verbatim>\<open>sel[0].begin() if forward else sel[-1].end()\<close>.\<close>

definition anchor_point :: "bool \<Rightarrow> region list \<Rightarrow> fault + int" where
  "anchor_point forward sel =
     (if forward
      then (case sel_getitem sel 0 of Inl err \<Rightarrow> Inl err | Inr r \<Rightarrow> Inr (region_begin r))
      else (case sel_getitem sel (- 1) of Inl err \<Rightarrow> Inl err | Inr r \<Rightarrow> Inr (region_end r)))"

text \<open>
  Lines 78 to 80. Python's \<^verbatim>\<open>and\<close>/\<^verbatim>\<open>or\<close> short-circuit: \<^verbatim>\<open>regions[0]\<close> is evaluated only
  when nothing was found and \<^verbatim>\<open>len(regions) > 1\<close> is false.
\<close>

definition may_wrap :: "int \<Rightarrow> region list \<Rightarrow> fault + bool" where
  "may_wrap point regions =
     (if length regions > 1 then Inr True
      else (case sel_getitem regions 0 of
              Inl err \<Rightarrow> Inl err
            | Inr r \<Rightarrow> Inr (\<not> contains_point r point)))"

definition wrap_target :: "bool \<Rightarrow> region list \<Rightarrow> fault + region option" where
  "wrap_target forward regions =
     (case (if forward then sel_getitem regions 0 else sel_getitem regions (- 1)) of
        Inl err \<Rightarrow> Inl err
      | Inr r \<Rightarrow> Inr (Some r))"

definition choose_region :: "persist \<Rightarrow> bool \<Rightarrow> int \<Rightarrow> region list \<Rightarrow> fault + region option" where
  "choose_region p forward point regions =
     (case directional_scan forward point regions of
        Some r \<Rightarrow> Inr (Some r)
      | None \<Rightarrow>
          (case may_wrap point regions of
             Inl err \<Rightarrow> Inl err
           | Inr ok \<Rightarrow>
               if ok then
                 (if settings_get p ''wrap_find'' True then wrap_target forward regions
                  else Inr None)
               else Inr None))"

text \<open>
  Lines 52 and 53. With an empty selection the source calls \<^verbatim>\<open>sel.add((0, 0))\<close>: the argument
  is a Python pair, not a \<^verbatim>\<open>sublime.Region\<close> (line 100 builds a Region where one is meant).
  A selection holds regions, and \<open>add\<close> takes a Region or an integer offset; handed a pair, the
  editor raises \<open>TypeError\<close> and the selection stays as it was. Were the pair stored as it is,
  line 55 would raise on it instead, a pair having no \<open>begin\<close>.
\<close>

definition sel_add_pair :: "nat \<Rightarrow> int \<times> int \<Rightarrow> editor \<Rightarrow> fault + editor" where
  "sel_add_pair h xy e = Inl TypeError"

definition ensure_caret :: "view \<Rightarrow> editor \<Rightarrow> fault + editor" where
  "ensure_caret v e =
     (let sel = sel_id v
      in if length (selections e sel) = 0 then sel_add_pair sel (0, 0) e else Inr e)"

text \<open>Lines 56 to 59: the sequence that is scanned, built in the selection \<open>view_id\<close>.\<close>

definition collect_regions :: "view \<Rightarrow> editor \<Rightarrow> editor" where
  "collect_regions v e =
     (let regions = view_id v;
          e2 = sel_clear regions e;
          e3 = sel_add_all regions (get_regions v WARNING) e2
      in sel_add_all regions (get_regions v ERROR) e3)"

definition direction_name :: "bool \<Rightarrow> string" where
  "direction_name forward = (if forward then ''next'' else ''previous'')"

text \<open>
  The result is the region returned with the editor after the call, or the exception raised
  with the editor as the call left it: what was changed before a raise stays changed.
\<close>

definition find_error ::
  "persist \<Rightarrow> view \<Rightarrow> bool \<Rightarrow> editor \<Rightarrow> (fault \<times> editor) + (region option \<times> editor)" where
  "find_error p v forward e0 =
     (let sel = sel_id v;
          saved_sel = selections e0 sel
      in case ensure_caret v e0 of
           Inl err \<Rightarrow> Inl (err, e0)
         | Inr e1 \<Rightarrow>
             (case anchor_point forward (selections e1 sel) of
                Inl err \<Rightarrow> Inl (err, e1)
              | Inr point \<Rightarrow>
                  (let regions = view_id v;
                       e4 = collect_regions v e1
                   in case choose_region p forward point (selections e4 regions) of
                        Inl err \<Rightarrow> Inl (err, e4)
                      | Inr (Some region_to_select) \<Rightarrow>
                          Inr (Some region_to_select, select_lint_region v region_to_select e4)
                      | Inr None \<Rightarrow>
                          Inr (None,
                               error_message (''No '' @ direction_name forward @ '' lint errors.'')
                                 (sel_add_all sel saved_sel (sel_clear sel e4))))))"

subsection \<open>The commands and their decorator\<close>

definition error_command ::
  "(view \<Rightarrow> error_map \<Rightarrow> editor \<Rightarrow> (fault \<times> editor) + editor) \<Rightarrow>
     persist \<Rightarrow> view \<Rightarrow> editor \<Rightarrow> (fault \<times> editor) + editor" where
  "error_command f p v e =
     (case errors p (view_id v) of
        None \<Rightarrow> Inr (error_message ''No lint errors.'' e)
      | Some errs \<Rightarrow>
          if errs \<noteq> [] then f v errs e else Inr (error_message ''No lint errors.'' e))"

definition run_find ::
  "persist \<Rightarrow> bool \<Rightarrow> view \<Rightarrow> error_map \<Rightarrow> editor \<Rightarrow> (fault \<times> editor) + editor" where
  "run_find p forward v errs e =
     (case find_error p v forward e of Inl err \<Rightarrow> Inl err | Inr (r, e') \<Rightarrow> Inr e')"

definition next_error :: "persist \<Rightarrow> view \<Rightarrow> editor \<Rightarrow> (fault \<times> editor) + editor" where
  "next_error p v e = error_command (run_find p True) p v e"

definition previous_error :: "persist \<Rightarrow> view \<Rightarrow> editor \<Rightarrow> (fault \<times> editor) + editor" where
  "previous_error p v e = error_command (run_find p False) p v e"

section \<open>sublimelinter\_report\<close>

subsection \<open>Text formatting\<close>

definition nl :: string where
  "nl = [CHR 0x0A]"

definition digit_char :: "nat \<Rightarrow> char" where
  "digit_char d = ''0123456789'' ! d"

fun str_nat :: "nat \<Rightarrow> string" where
  "str_nat n = (if n < 10 then [digit_char n] else str_nat (n div 10) @ [digit_char (n mod 10)])"

declare str_nat.simps [simp del]

text \<open>\<^verbatim>\<open>'{}'.format(i)\<close> for an integer: its decimal digits, with a sign when negative.\<close>

definition str_int :: "int \<Rightarrow> string" where
  "str_int i = (if i < 0 then CHR ''-'' # str_nat (nat (- i)) else str_nat (nat i))"

text \<open>\<^verbatim>\<open>os.path.basename\<close>: what follows the last slash.\<close>

definition basename :: "string \<Rightarrow> string" where
  "basename path = rev (takeWhile (\<lambda>c. c \<noteq> CHR ''/'') (rev path))"

subsection \<open>The insert closure of finish\_lint\<close>

record linter =
  filename :: "string option"
  linter_errors :: error_map

text \<open>\<^verbatim>\<open>linters[0].filename or 'untitled'\<close>: \<open>None\<close> and the empty string are both falsy.\<close>

definition filename_or_untitled :: "linter \<Rightarrow> string" where
  "filename_or_untitled l =
     (case filename l of None \<Rightarrow> ''untitled'' | Some f \<Rightarrow> if f = [] then ''untitled'' else f)"

text \<open>Line 203 and 204: one output line for each \<open>(col, error)\<close> pair of a source line.\<close>

fun message_lines :: "int \<Rightarrow> (int \<times> string) list \<Rightarrow> string" where
  "message_lines line [] = []"
| "message_lines line ((col, error) # rest) =
     (''  '' @ str_int line @ '': '' @ error @ nl) @ message_lines line rest"

fun item_lines :: "error_map \<Rightarrow> string" where
  "item_lines [] = []"
| "item_lines ((line, errs) # rest) = message_lines line errs @ item_lines rest"

text \<open>
  Line 202: \<^verbatim>\<open>sorted(linter.errors.items())\<close>. The keys of a dict are distinct, so ordering
  the items is ordering them by line.
\<close>

definition sorted_items :: "error_map \<Rightarrow> error_map" where
  "sorted_items m = sort_key fst m"

definition linter_lines :: "linter \<Rightarrow> string" where
  "linter_lines l = (if linter_errors l \<noteq> [] then item_lines (sorted_items (linter_errors l)) else [])"

fun linters_lines :: "linter list \<Rightarrow> string" where
  "linters_lines [] = []"
| "linters_lines (l # rest) = linter_lines l @ linters_lines rest"

definition header :: "linter \<Rightarrow> string" where
  "header l0 = nl @ basename (filename_or_untitled l0) @ '':'' @ nl"

text \<open>
  The closure \<^verbatim>\<open>insert\<close> (lines 193 to 206) applied to the text of the output document:
  \<^verbatim>\<open>output.insert(edit, output.size(), out)\<close> appends at the end.
\<close>

definition insert_edit :: "linter list \<Rightarrow> string \<Rightarrow> fault + string" where
  "insert_edit linters output =
     (if \<not> list_ex (\<lambda>l. linter_errors l \<noteq> []) linters then Inr output
      else (case linters of
              [] \<Rightarrow> Inl IndexError
            | l0 # _ \<Rightarrow> Inr (output @ header l0 @ linters_lines linters)))"

text \<open>
  \<^verbatim>\<open>finish_lint\<close> (lines 189 to 209) returns at once without linters; otherwise it queues the
  closure, which is identified here by the linters it captures.
\<close>

definition finish_lint :: "linter list \<Rightarrow> linter list list \<Rightarrow> linter list list" where
  "finish_lint linters edits = (if linters = [] then edits else edits @ [linters])"

subsection \<open>The folder walk\<close>

text \<open>
  \<^verbatim>\<open>os.walk\<close> yields \<open>(root, dirs, files)\<close> triples and \<^verbatim>\<open>os.stat(path).st_size\<close> is the size
  in bytes. The guarded body (line 185) is empty in the source, so the walk changes nothing;
  \<open>folder\<close> returns the paths for which the guarded body is reached, in walk order.
\<close>

definition path_join :: "string \<Rightarrow> string \<Rightarrow> string" where
  "path_join root name =
     (if name \<noteq> [] \<and> hd name = CHR ''/'' then name
      else if root = [] \<or> last root = CHR ''/'' then root @ name
      else root @ ''/'' @ name)"

fun folder_files :: "(string \<Rightarrow> nat) \<Rightarrow> string \<Rightarrow> string list \<Rightarrow> string list" where
  "folder_files st_size root [] = []"
| "folder_files st_size root (name # files) =
     (let path = path_join root name
      in if st_size path < 256 * 1024 then path # folder_files st_size root files
         else folder_files st_size root files)"

fun folder :: "(string \<Rightarrow> nat) \<Rightarrow> (string \<times> string list \<times> string list) list \<Rightarrow> string list" where
  "folder st_size [] = []"
| "folder st_size ((root, dirs, files) # walk) =
     folder_files st_size root files @ folder st_size walk"

subsection \<open>The report as the spec words it\<close>

text \<open>
  The \<open>(line, column, message)\<close> entries of an error map in ascending line order, each line's
  messages in the order the map holds them, and the output line of one entry. The text that
  \<open>insert_edit\<close> builds is compared with these below.
\<close>

definition report_entries :: "error_map \<Rightarrow> (int \<times> int \<times> string) list" where
  "report_entries m =
     concat (map (\<lambda>(line, errs). map (\<lambda>(col, error). (line, col, error)) errs) (sort_key fst m))"

definition entry_line :: "int \<times> int \<times> string \<Rightarrow> string" where
  "entry_line en = (case en of (line, col, error) \<Rightarrow> ''  '' @ str_int line @ '': '' @ error @ nl)"

section \<open>Example inputs\<close>

definition example_view :: "region list \<Rightarrow> region list \<Rightarrow> view" where
  "example_view ws es =
     \<lparr>view_id = 1, sel_id = 1, get_regions = (\<lambda>s. case s of WARNING \<Rightarrow> ws | ERROR \<Rightarrow> es)\<rparr>"

definition example_editor :: "region list \<Rightarrow> editor" where
  "example_editor sel = \<lparr>selections = (\<lambda>h. if h = 1 then sel else []), shown = [], dialogs = []\<rparr>"

definition example_persist :: "bool option \<Rightarrow> persist" where
  "example_persist w = \<lparr>settings = (\<lambda>k. if k = ''wrap_find'' then w else None),
                         errors = (\<lambda>vid. if vid = 1 then Some [(3, [(0, ''x'')])] else None)\<rparr>"

definition example_linter :: linter where
  "example_linter = \<lparr>filename = Some ''/home/u/a.py'',
                      linter_errors = [(7, [(0, ''y''), (4, ''z'')]), (3, [(0, ''x'')])]\<rparr>"

definition example_linter_b :: linter where
  "example_linter_b = \<lparr>filename = None, linter_errors = [(2, [(1, ''w'')])]\<rparr>"

definition example_walk :: "(string \<times> string list \<times> string list) list" where
  "example_walk = [(''/proj'', [''sub''], [''a.py'', ''big.bin'']), (''/proj/sub'', [], [''b.py''])]"

definition example_sizes :: "string \<Rightarrow> nat" where
  "example_sizes path = (if path = ''/proj/big.bin'' then 256 * 1024
                         else if path = ''/proj/a.py'' then 256 * 1024 - 1 else 100)"

section \<open>The region navigator\<close>

subsection \<open>The scanned sequence and the two scans\<close>

lemma collect_regions_sel:
  "selections (collect_regions v e) (view_id v) = get_regions v WARNING @ get_regions v ERROR"
  by (simp add: collect_regions_def sel_clear_def sel_add_all_def Let_def)

lemma collect_regions_other:
  "h \<noteq> view_id v \<Longrightarrow> selections (collect_regions v e) h = selections e h"
  by (simp add: collect_regions_def sel_clear_def sel_add_all_def Let_def)

lemma collect_regions_dialogs: "dialogs (collect_regions v e) = dialogs e"
  by (simp add: collect_regions_def sel_clear_def sel_add_all_def Let_def)

lemma scan_forward_find: "scan_forward p rs = find (\<lambda>r. p < region_begin r) rs"
  by (induction rs) auto

lemma scan_backward_find: "scan_backward p rs = find (\<lambda>r. p > region_end r) rs"
  by (induction rs) auto

lemma scan_forward_index:
  "i < length rs \<Longrightarrow> p < region_begin (rs ! i) \<Longrightarrow> (\<forall>j<i. \<not> p < region_begin (rs ! j))
   \<Longrightarrow> scan_forward p rs = Some (rs ! i)"
proof (induction rs arbitrary: i)
  case Nil
  then show ?case by simp
next
  case (Cons r rs)
  show ?case
  proof (cases i)
    case 0
    with Cons.prems show ?thesis by simp
  next
    case (Suc k)
    from Cons.prems Suc have "\<not> p < region_begin r" by auto
    moreover have "scan_forward p rs = Some (rs ! k)"
      using Cons.prems Suc by (intro Cons.IH) auto
    ultimately show ?thesis using Suc by simp
  qed
qed

lemma scan_backward_index:
  "i < length rs \<Longrightarrow> p > region_end (rs ! i) \<Longrightarrow> (\<forall>j<i. \<not> p > region_end (rs ! j))
   \<Longrightarrow> scan_backward p rs = Some (rs ! i)"
proof (induction rs arbitrary: i)
  case Nil
  then show ?case by simp
next
  case (Cons r rs)
  show ?case
  proof (cases i)
    case 0
    with Cons.prems show ?thesis by simp
  next
    case (Suc k)
    from Cons.prems Suc have "\<not> p > region_end r" by auto
    moreover have "scan_backward p rs = Some (rs ! k)"
      using Cons.prems Suc by (intro Cons.IH) auto
    ultimately show ?thesis using Suc by simp
  qed
qed

lemma scan_backward_rev_index:
  assumes "i < length rs" "p > region_end (rs ! i)"
    and "\<forall>j. i < j \<and> j < length rs \<longrightarrow> \<not> p > region_end (rs ! j)"
  shows "scan_backward p (rev rs) = Some (rs ! i)"
proof -
  let ?k = "length rs - 1 - i"
  have k: "?k < length (rev rs)" using assms(1) by simp
  have at: "rev rs ! ?k = rs ! i" using assms(1) by (simp add: rev_nth)
  have before: "\<forall>j<?k. \<not> p > region_end (rev rs ! j)"
  proof (intro allI impI)
    fix j assume j: "j < ?k"
    then have "rev rs ! j = rs ! (length rs - 1 - j)" by (simp add: rev_nth)
    moreover have "i < length rs - 1 - j \<and> length rs - 1 - j < length rs" using j assms(1) by arith
    ultimately show "\<not> p > region_end (rev rs ! j)" using assms(3) by simp
  qed
  have "scan_backward p (rev rs) = Some (rev rs ! ?k)"
    using k at before assms(2) by (intro scan_backward_index) simp_all
  with at show ?thesis by simp
qed

lemma scan_forward_Some: "scan_forward p rs = Some r \<Longrightarrow> r \<in> set rs \<and> p < region_begin r"
  by (induction rs) (auto split: if_splits)

lemma scan_backward_Some: "scan_backward p rs = Some r \<Longrightarrow> r \<in> set rs \<and> region_end r < p"
  by (induction rs) (auto split: if_splits)

lemma scan_forward_None: "scan_forward p rs = None \<longleftrightarrow> (\<forall>r\<in>set rs. region_begin r \<le> p)"
  by (induction rs) auto

lemma scan_backward_None: "scan_backward p rs = None \<longleftrightarrow> (\<forall>r\<in>set rs. p \<le> region_end r)"
  by (induction rs) auto



lemma sel_getitem_first: "s \<noteq> [] \<Longrightarrow> sel_getitem s 0 = Inr (hd s)"
  by (cases s) (simp_all add: sel_getitem_def)

lemma sel_getitem_last: "s \<noteq> [] \<Longrightarrow> sel_getitem s (- 1) = Inr (last s)"
proof -
  assume ne: "s \<noteq> []"
  then have len: "0 < length s" by simp
  then have one: "Suc 0 \<le> length s" by (cases s) simp_all
  have "nat (int (length s) + - 1) = length s - 1" by simp
  then show ?thesis using ne len one by (simp add: sel_getitem_def last_conv_nth)
qed

lemma sel_getitem_empty: "sel_getitem [] i = Inl IndexError"
  by (simp add: sel_getitem_def)

lemma anchor_point_nonempty:
  "s \<noteq> [] \<Longrightarrow>
   anchor_point forward s = Inr (if forward then region_begin (hd s) else region_end (last s))"
  by (simp add: anchor_point_def sel_getitem_first sel_getitem_last)

lemma anchor_point_empty: "anchor_point forward [] = Inl IndexError"
  by (simp add: anchor_point_def sel_getitem_empty)

lemma anchor_point_Inr_nonempty: "anchor_point forward s = Inr a \<Longrightarrow> s \<noteq> []"
  by (auto simp: anchor_point_empty)

lemma ensure_caret_nonempty: "selections e (sel_id v) \<noteq> [] \<Longrightarrow> ensure_caret v e = Inr e"
  by (simp add: ensure_caret_def Let_def)

lemma ensure_caret_empty: "selections e (sel_id v) = [] \<Longrightarrow> ensure_caret v e = Inl TypeError"
  by (simp add: ensure_caret_def sel_add_pair_def Let_def)

lemma find_error_empty_selection_fault:
  "selections e (sel_id v) = [] \<Longrightarrow> find_error p v forward e = Inl (TypeError, e)"
  by (simp add: find_error_def ensure_caret_empty Let_def)

lemma find_error_Inr_anchor:
  assumes "find_error p v forward e = Inr x"
  shows "\<exists>a. anchor_point forward (selections e (sel_id v)) = Inr a"
proof (cases "selections e (sel_id v) = []")
  case True
  from find_error_empty_selection_fault [OF True] assms show ?thesis by simp
next
  case False
  then show ?thesis by (simp add: anchor_point_nonempty)
qed

lemma find_error_unfold:
  assumes "anchor_point forward (selections e (sel_id v)) = Inr a"
  shows "find_error p v forward e =
    (case choose_region p forward a (get_regions v WARNING @ get_regions v ERROR) of
       Inl err \<Rightarrow> Inl (err, collect_regions v e)
     | Inr (Some r) \<Rightarrow> Inr (Some r, select_lint_region v r (collect_regions v e))
     | Inr None \<Rightarrow>
         Inr (None,
              error_message (''No '' @ direction_name forward @ '' lint errors.'')
                (sel_add_all (sel_id v) (selections e (sel_id v))
                   (sel_clear (sel_id v) (collect_regions v e)))))"
  using assms anchor_point_Inr_nonempty [OF assms]
  by (simp add: find_error_def Let_def collect_regions_sel ensure_caret_nonempty)

lemma restored_selection:
  "selections (error_message m (sel_add_all h saved (sel_clear h e'))) h = saved"
  by (simp add: error_message_def sel_add_all_def sel_clear_def)

lemma restored_dialogs:
  "dialogs (error_message m (sel_add_all h saved (sel_clear h (collect_regions v e))))
     = dialogs e @ [m]"
  by (simp add: error_message_def sel_add_all_def sel_clear_def collect_regions_dialogs)

lemma choose_region_found:
  "directional_scan forward a rs = Some r \<Longrightarrow> choose_region p forward a rs = Inr (Some r)"
  by (simp add: choose_region_def)

lemma find_error_found:
  assumes "anchor_point forward (selections e (sel_id v)) = Inr a"
    and "directional_scan forward a (get_regions v WARNING @ get_regions v ERROR) = Some r"
  shows "find_error p v forward e =
           Inr (Some r, select_lint_region v r (collect_regions v e))"
  by (simp add: find_error_unfold [OF assms(1)] choose_region_found [OF assms(2)])


lemma may_wrap_many: "1 < length rs \<Longrightarrow> may_wrap a rs = Inr True"
  by (simp add: may_wrap_def)

lemma may_wrap_single: "may_wrap a [r] = Inr (\<not> contains_point r a)"
  by (simp add: may_wrap_def sel_getitem_def)

lemma may_wrap_empty: "may_wrap a [] = Inl IndexError"
  by (simp add: may_wrap_def sel_getitem_def)

lemma wrap_target_nonempty:
  "rs \<noteq> [] \<Longrightarrow> wrap_target forward rs = Inr (Some (if forward then hd rs else last rs))"
  by (simp add: wrap_target_def sel_getitem_first sel_getitem_last)

text \<open>
  Claim C1. Forward, \<open>find_error\<close> returns the first region in index order whose begin is
  strictly greater than the anchor, the begin of the first span of the selection; backward, it
  returns the first region in reverse index order whose end is strictly less than the anchor,
  the end of the last span of the selection. A region that begins exactly at the forward
  anchor is never the result of the directional scan.
\<close>
theorem find_error_directional_scan:
  assumes "rs = get_regions v WARNING @ get_regions v ERROR"
    and "sel = selections e (sel_id v)"
    and "sel \<noteq> []"
  shows "(\<forall>i<length rs.
            region_begin (hd sel) < region_begin (rs ! i) \<and>
            (\<forall>j<i. region_begin (rs ! j) \<le> region_begin (hd sel)) \<longrightarrow>
            (\<exists>e'. find_error p v True e = Inr (Some (rs ! i), e')))
       \<and> (\<forall>i<length rs.
            region_end (rs ! i) < region_end (last sel) \<and>
            (\<forall>j<length rs. i < j \<longrightarrow> region_end (last sel) \<le> region_end (rs ! j)) \<longrightarrow>
            (\<exists>e'. find_error p v False e = Inr (Some (rs ! i), e')))
       \<and> (\<forall>r\<in>set rs. region_begin r = region_begin (hd sel) \<longrightarrow>
            directional_scan True (region_begin (hd sel)) rs \<noteq> Some r)"
proof (intro conjI allI impI ballI)
  have cur: "selections e (sel_id v) = sel"
    using assms(2) by simp
  {
    fix i assume i: "i < length rs"
      and q: "region_begin (hd sel) < region_begin (rs ! i) \<and>
              (\<forall>j<i. region_begin (rs ! j) \<le> region_begin (hd sel))"
    have a: "anchor_point True (selections e (sel_id v)) = Inr (region_begin (hd sel))"
      using assms(3) by (simp add: cur anchor_point_nonempty)
    have "scan_forward (region_begin (hd sel)) rs = Some (rs ! i)"
      using i q by (intro scan_forward_index) (auto simp: not_less)
    then have "directional_scan True (region_begin (hd sel))
                 (get_regions v WARNING @ get_regions v ERROR) = Some (rs ! i)"
      by (simp add: directional_scan_def assms(1))
    from find_error_found [OF a this]
    show "\<exists>e'. find_error p v True e = Inr (Some (rs ! i), e')" by blast
  next
    fix i assume i: "i < length rs"
      and q: "region_end (rs ! i) < region_end (last sel) \<and>
              (\<forall>j<length rs. i < j \<longrightarrow> region_end (last sel) \<le> region_end (rs ! j))"
    have a: "anchor_point False (selections e (sel_id v)) = Inr (region_end (last sel))"
      using assms(3) by (simp add: cur anchor_point_nonempty)
    have "scan_backward (region_end (last sel)) (rev rs) = Some (rs ! i)"
      using i q by (intro scan_backward_rev_index) (auto simp: not_less)
    then have "directional_scan False (region_end (last sel))
                 (get_regions v WARNING @ get_regions v ERROR) = Some (rs ! i)"
      by (simp add: directional_scan_def assms(1))
    from find_error_found [OF a this]
    show "\<exists>e'. find_error p v False e = Inr (Some (rs ! i), e')" by blast
  next
    fix r assume "r \<in> set rs" and eq: "region_begin r = region_begin (hd sel)"
    show "directional_scan True (region_begin (hd sel)) rs \<noteq> Some r"
    proof
      assume "directional_scan True (region_begin (hd sel)) rs = Some r"
      then have "scan_forward (region_begin (hd sel)) rs = Some r"
        by (simp add: directional_scan_def)
      from scan_forward_Some [OF this] eq show False by simp
    qed
  }
qed

text \<open>
  Claim C2. With wrap enabled, when there is exactly one region and it contains the anchor,
  the search in either direction returns no region instead of wrapping to that region.
\<close>
theorem sole_region_not_wrapped:
  assumes "get_regions v WARNING @ get_regions v ERROR = [r]"
    and "anchor_point forward (selections e (sel_id v)) = Inr a"
    and "contains_point r a"
    and "settings_get p ''wrap_find'' True"
  shows "\<exists>e'. find_error p v forward e = Inr (None, e')"
proof -
  have "directional_scan forward a [r] = None"
    using assms(3) by (simp add: directional_scan_def contains_point_def)
  then have "choose_region p forward a [r] = Inr None"
    using assms(3) by (simp add: choose_region_def may_wrap_single)
  then show ?thesis
    by (simp add: find_error_unfold [OF assms(2)] assms(1))
qed

text \<open>
  Claim C3. The sequence that is scanned is the warning regions followed by the error regions,
  each group in the order \<open>get_regions\<close> gives it; it is not sorted as a whole: warnings at 10
  and 40 with an error at 20 are scanned in the order 10, 40, 20.
\<close>
theorem collect_regions_warnings_then_errors:
  "(\<forall>v e. selections (collect_regions v e) (view_id v) = get_regions v WARNING @ get_regions v ERROR)
   \<and> map region_begin (selections (collect_regions (example_view [Region 10 14, Region 40 44] [Region 20 25])
                                     (example_editor [])) 1) = [10, 40, 20]"
  by (simp add: collect_regions_sel)
     (simp add: collect_regions_def example_view_def example_editor_def sel_clear_def
        sel_add_all_def Let_def Region_def region_begin_def)


lemma choose_region_no_regions:
  "choose_region p forward a [] = Inl IndexError"
  by (simp add: choose_region_def directional_scan_def may_wrap_empty)

lemma find_error_no_regions:
  assumes "get_regions v WARNING @ get_regions v ERROR = []"
    and "selections e (sel_id v) \<noteq> []"
  shows "find_error p v forward e = Inl (IndexError, collect_regions v e)"
proof -
  obtain a where a: "anchor_point forward (selections e (sel_id v)) = Inr a"
    using assms(2) by (simp add: anchor_point_nonempty)
  show ?thesis
    by (simp add: find_error_unfold [OF a] assms(1) choose_region_no_regions)
qed

text \<open>From a caret and with at least one region \<open>find_error\<close> never raises.\<close>

lemma choose_region_total:
  assumes "rs \<noteq> []"
  shows "\<exists>r. choose_region p forward a rs = Inr r"
proof (cases "directional_scan forward a rs")
  case (Some r)
  then show ?thesis by (simp add: choose_region_def)
next
  case None
  have "\<exists>b. may_wrap a rs = Inr b"
  proof (cases "1 < length rs")
    case True
    from may_wrap_many [OF this] show ?thesis by blast
  next
    case False
    with assms obtain r where "rs = [r]" by (cases rs) auto
    then show ?thesis using may_wrap_single by blast
  qed
  then obtain b where "may_wrap a rs = Inr b" ..
  with None show ?thesis
    by (simp add: choose_region_def wrap_target_nonempty [OF assms])
qed

lemma find_error_total:
  assumes "get_regions v WARNING @ get_regions v ERROR \<noteq> []"
    and "selections e (sel_id v) \<noteq> []"
  shows "\<exists>r e'. find_error p v forward e = Inr (r, e')"
proof -
  obtain a where a: "anchor_point forward (selections e (sel_id v)) = Inr a"
    using assms(2) by (simp add: anchor_point_nonempty)
  obtain r where "choose_region p forward a (get_regions v WARNING @ get_regions v ERROR) = Inr r"
    using choose_region_total [OF assms(1)] by blast
  then show ?thesis
    by (cases r) (simp_all add: find_error_unfold [OF a])
qed

lemma find_error_None_state:
  assumes "find_error p v forward e = Inr (None, e')"
  shows "selections e' (sel_id v) = selections e (sel_id v) \<and>
         dialogs e' = dialogs e @ [''No '' @ direction_name forward @ '' lint errors.'']"
proof -
  obtain a where a: "anchor_point forward (selections e (sel_id v)) = Inr a"
    using find_error_Inr_anchor [OF assms] by blast
  from assms have "e' = error_message (''No '' @ direction_name forward @ '' lint errors.'')
                (sel_add_all (sel_id v) (selections e (sel_id v))
                   (sel_clear (sel_id v) (collect_regions v e)))"
    unfolding find_error_unfold [OF a] by (auto split: sum.splits option.splits)
  then show ?thesis
    by (simp only: restored_selection restored_dialogs)
qed

lemma choose_region_None:
  assumes "rs \<noteq> []" and "directional_scan forward a rs = None"
    and "\<not> settings_get p ''wrap_find'' True \<or> (length rs = 1 \<and> contains_point (hd rs) a)"
  shows "choose_region p forward a rs = Inr None"
proof (cases "1 < length rs")
  case True
  with assms show ?thesis by (simp add: choose_region_def may_wrap_many)
next
  case False
  with assms(1) obtain r where r: "rs = [r]" by (cases rs) auto
  with assms show ?thesis by (auto simp: choose_region_def may_wrap_single)
qed

lemma find_error_None:
  assumes "anchor_point forward (selections e (sel_id v)) = Inr a"
    and "choose_region p forward a (get_regions v WARNING @ get_regions v ERROR) = Inr None"
  shows "\<exists>e'. find_error p v forward e = Inr (None, e')"
  by (simp add: find_error_unfold [OF assms(1)] assms(2))

lemma error_command_no_errors:
  "errors p (view_id v) = None \<or> errors p (view_id v) = Some [] \<Longrightarrow>
   error_command f p v e = Inr (error_message ''No lint errors.'' e)"
  by (auto simp: error_command_def)

lemma choose_region_wrap:
  assumes "2 \<le> length rs" and "directional_scan forward a rs = None"
    and "settings_get p ''wrap_find'' True"
  shows "choose_region p forward a rs = Inr (Some (if forward then hd rs else last rs))"
proof -
  from assms(1) have ne: "rs \<noteq> []" and many: "1 < length rs" by auto
  show ?thesis
    using assms(2,3) by (simp add: choose_region_def may_wrap_many [OF many] wrap_target_nonempty [OF ne])
qed

text \<open>
  Claim C5, as stated, fails where there is no region at all but the view has recorded errors:
  with wrap disabled nothing is found, yet line 78 raises \<open>IndexError\<close> after line 57 has
  emptied the selection, so nothing is restored and no dialog is shown.
\<close>
theorem failure_without_regions_counterexample:
  "next_error (example_persist (Some False)) (example_view [] []) (example_editor [Region 5 5])
     = Inl (IndexError, collect_regions (example_view [] []) (example_editor [Region 5 5]))
   \<and> selections (example_editor [Region 5 5]) (sel_id (example_view [] [])) = [Region 5 5]
   \<and> selections (collect_regions (example_view [] []) (example_editor [Region 5 5]))
         (sel_id (example_view [] [])) = []
   \<and> dialogs (collect_regions (example_view [] []) (example_editor [Region 5 5])) = []"
proof -
  have "find_error (example_persist (Some False)) (example_view [] []) True (example_editor [Region 5 5])
          = Inl (IndexError, collect_regions (example_view [] []) (example_editor [Region 5 5]))"
    by (simp add: find_error_no_regions example_view_def example_editor_def example_persist_def)
  then have rf: "\<And>errs. run_find (example_persist (Some False)) True (example_view [] []) errs
                   (example_editor [Region 5 5])
          = Inl (IndexError, collect_regions (example_view [] []) (example_editor [Region 5 5]))"
    by (simp add: run_find_def)
  have recorded: "errors (example_persist (Some False)) (view_id (example_view [] []))
                    = Some [(3, [(0, ''x'')])]"
    by (simp add: example_view_def example_persist_def)
  have raised: "next_error (example_persist (Some False)) (example_view [] []) (example_editor [Region 5 5])
          = Inl (IndexError, collect_regions (example_view [] []) (example_editor [Region 5 5]))"
    by (simp add: next_error_def error_command_def recorded rf)
  have before: "selections (example_editor [Region 5 5]) (sel_id (example_view [] [])) = [Region 5 5]"
    by (simp add: example_view_def example_editor_def)
  have same: "sel_id (example_view [] []) = view_id (example_view [] [])"
    by (simp add: example_view_def)
  have after: "selections (collect_regions (example_view [] []) (example_editor [Region 5 5]))
                 (sel_id (example_view [] [])) = []"
    unfolding same collect_regions_sel by (simp add: example_view_def)
  have quiet: "dialogs (collect_regions (example_view [] []) (example_editor [Region 5 5])) = []"
    by (simp add: collect_regions_dialogs example_editor_def)
  from raised before after quiet show ?thesis by blast
qed

text \<open>
  Claim C5, amended. Whenever \<open>find_error\<close>, scanning at least one region, returns no region
  (the scan finds none and wrap is disabled or suppressed), the selection of the view is what
  it was before the call and the dialog ``No next lint errors.'' or ``No previous lint
  errors.'' is shown. A view without recorded errors gets the different dialog
  ``No lint errors.'', and its selections stay as they were.
\<close>
theorem failure_restores_selection:
  assumes "anchor_point forward (selections e (sel_id v)) = Inr a"
    and "rs = get_regions v WARNING @ get_regions v ERROR"
  shows "(\<forall>e'. find_error p v forward e = Inr (None, e') \<longrightarrow>
            selections e' (sel_id v) = selections e (sel_id v) \<and>
            dialogs e' = dialogs e @ [if forward then ''No next lint errors.''
                                      else ''No previous lint errors.''])
       \<and> (rs \<noteq> [] \<and> directional_scan forward a rs = None \<and>
            (\<not> settings_get p ''wrap_find'' True \<or> (length rs = 1 \<and> contains_point (hd rs) a)) \<longrightarrow>
            (\<exists>e'. find_error p v forward e = Inr (None, e')))
       \<and> (errors p (view_id v) = None \<or> errors p (view_id v) = Some [] \<longrightarrow>
            (\<exists>e'. (if forward then next_error p v e else previous_error p v e) = Inr e' \<and>
                  selections e' = selections e \<and>
                  dialogs e' = dialogs e @ [''No lint errors.'']))"
proof (intro conjI allI impI)
  fix e' assume "find_error p v forward e = Inr (None, e')"
  from find_error_None_state [OF this]
  show "selections e' (sel_id v) = selections e (sel_id v)"
    and "dialogs e' = dialogs e @ [if forward then ''No next lint errors.''
                                   else ''No previous lint errors.'']"
    by (simp_all add: direction_name_def)
next
  assume h: "rs \<noteq> [] \<and> directional_scan forward a rs = None \<and>
            (\<not> settings_get p ''wrap_find'' True \<or> (length rs = 1 \<and> contains_point (hd rs) a))"
  then have "choose_region p forward a rs = Inr None"
    by (intro choose_region_None) auto
  then show "\<exists>e'. find_error p v forward e = Inr (None, e')"
    using find_error_None [OF assms(1)] by (simp add: assms(2))
next
  assume h: "errors p (view_id v) = None \<or> errors p (view_id v) = Some []"
  show "\<exists>e'. (if forward then next_error p v e else previous_error p v e) = Inr e' \<and>
                  selections e' = selections e \<and>
                  dialogs e' = dialogs e @ [''No lint errors.'']"
    by (simp add: next_error_def previous_error_def error_command_no_errors [OF h]
        error_message_def)
qed

text \<open>
  Claim C4, amended. The empty case is handled by the decorator \<open>error_command\<close>: when the view
  has no recorded lint errors (no entry in \<^verbatim>\<open>persist.errors\<close>, or an empty one), the next and
  the previous command end normally with the dialog ``No lint errors.'', the wrapped function
  is not run, and nothing else in the editor changes, whatever the wrap setting.
\<close>
theorem no_errors_reported_by_guard:
  assumes "errors p (view_id v) = None \<or> errors p (view_id v) = Some []"
  shows "next_error p v e = Inr (error_message ''No lint errors.'' e)
       \<and> previous_error p v e = Inr (error_message ''No lint errors.'' e)
       \<and> (\<forall>f. error_command f p v e = Inr (error_message ''No lint errors.'' e))"
  by (simp add: next_error_def previous_error_def error_command_no_errors [OF assms])

text \<open>
  Claim C6. With wrap enabled and at least two regions, when the directional scan finds
  nothing, a forward search returns the first region of the sequence and a backward search the
  last.
\<close>
theorem wrap_to_first_or_last:
  assumes "rs = get_regions v WARNING @ get_regions v ERROR"
    and "2 \<le> length rs"
    and "anchor_point forward (selections e (sel_id v)) = Inr a"
    and "directional_scan forward a rs = None"
    and "settings_get p ''wrap_find'' True"
  shows "\<exists>e'. find_error p v forward e = Inr (Some (if forward then hd rs else last rs), e')"
  using choose_region_wrap [OF assms(2,4,5)]
  by (simp add: find_error_unfold [OF assms(3)] assms(1) [symmetric])


lemmas example_defs = example_view_def example_editor_def example_persist_def

lemma example_anchor:
  "sel \<noteq> [] \<Longrightarrow>
   anchor_point forward (selections (example_editor sel) (sel_id (example_view ws es)))
     = Inr (if forward then region_begin (hd sel) else region_end (last sel))"
  by (simp add: example_defs anchor_point_nonempty)

theorem find_error_directional_scan_witness:
  "(\<exists>e'. find_error (example_persist None) (example_view [Region 10 14, Region 40 44] [Region 20 25])
            True (example_editor [Region 12 12, Region 30 30]) = Inr (Some (Region 40 44), e'))
   \<and> (\<exists>e'. find_error (example_persist None) (example_view [Region 10 14, Region 40 44] [Region 20 25])
            False (example_editor [Region 12 12, Region 30 30]) = Inr (Some (Region 20 25), e'))
   \<and> directional_scan True 12 [Region 12 14, Region 40 44] \<noteq> Some (Region 12 14)"
proof -
  let ?v = "example_view [Region 10 14, Region 40 44] [Region 20 25]"
  let ?e = "example_editor [Region 12 12, Region 30 30]"
  let ?rs = "[Region 10 14, Region 40 44, Region 20 25]"
  let ?sel = "[Region 12 12, Region 30 30]"
  have rs: "?rs = get_regions ?v WARNING @ get_regions ?v ERROR"
    by (simp add: example_defs)
  have sel: "?sel = selections ?e (sel_id ?v)"
    by (simp add: example_defs)
  have ne: "?sel \<noteq> []" by simp
  note T = find_error_directional_scan [OF rs sel ne, of "example_persist None"]
  have fw: "\<exists>e'. find_error (example_persist None) ?v True ?e = Inr (Some (?rs ! 1), e')"
    using T [THEN conjunct1, rule_format, of 1]
    by (simp add: Region_def region_begin_def)
  have bw: "\<exists>e'. find_error (example_persist None) ?v False ?e = Inr (Some (?rs ! 2), e')"
    using T [THEN conjunct2, THEN conjunct1, rule_format, of 2]
    by (simp add: Region_def region_end_def)
  let ?v2 = "example_view [Region 12 14, Region 40 44] []"
  have rs2: "[Region 12 14, Region 40 44] = get_regions ?v2 WARNING @ get_regions ?v2 ERROR"
    by (simp add: example_defs)
  have sel2: "?sel = selections ?e (sel_id ?v2)"
    by (simp add: example_defs)
  have "directional_scan True (region_begin (hd ?sel)) [Region 12 14, Region 40 44] \<noteq> Some (Region 12 14)"
    using find_error_directional_scan [OF rs2 sel2 ne, THEN conjunct2, THEN conjunct2,
        rule_format, of "Region 12 14"]
    by (simp add: Region_def region_begin_def)
  then have tie: "directional_scan True 12 [Region 12 14, Region 40 44] \<noteq> Some (Region 12 14)"
    by (simp add: Region_def region_begin_def)
  from fw bw tie show ?thesis by simp
qed

theorem sole_region_not_wrapped_witness:
  "(\<exists>e'. find_error (example_persist (Some True)) (example_view [] [Region 10 14]) True
            (example_editor [Region 12 12]) = Inr (None, e'))
   \<and> (\<exists>e'. find_error (example_persist None) (example_view [Region 10 14] []) False
            (example_editor [Region 12 12]) = Inr (None, e'))"
proof -
  have c: "contains_point (Region 10 14) 12"
    by (simp add: contains_point_def Region_def region_begin_def region_end_def)
  have a: "\<And>ws es forward. anchor_point forward
             (selections (example_editor [Region 12 12]) (sel_id (example_view ws es))) = Inr 12"
    by (simp add: example_anchor Region_def region_begin_def region_end_def)
  have w1: "settings_get (example_persist (Some True)) ''wrap_find'' True"
    by (simp add: settings_get_def example_defs)
  have w2: "settings_get (example_persist None) ''wrap_find'' True"
    by (simp add: settings_get_def example_defs)
  have r1: "get_regions (example_view [] [Region 10 14]) WARNING
              @ get_regions (example_view [] [Region 10 14]) ERROR = [Region 10 14]"
    by (simp add: example_defs)
  have r2: "get_regions (example_view [Region 10 14] []) WARNING
              @ get_regions (example_view [Region 10 14] []) ERROR = [Region 10 14]"
    by (simp add: example_defs)
  show ?thesis
    using sole_region_not_wrapped [OF r1 a c w1] sole_region_not_wrapped [OF r2 a c w2]
    by simp
qed

text \<open>
  Claim C4, as stated, fails: with no region at all \<open>find_error\<close> reaches \<^verbatim>\<open>regions[0]\<close> on
  line 78 and raises \<open>IndexError\<close>, in both directions and with wrap on or off.
\<close>
theorem find_error_zero_regions_counterexample:
  "find_error (example_persist (Some True)) (example_view [] []) True (example_editor [Region 5 5])
     = Inl (IndexError, collect_regions (example_view [] []) (example_editor [Region 5 5]))
   \<and> find_error (example_persist (Some False)) (example_view [] []) False (example_editor [Region 5 5])
     = Inl (IndexError, collect_regions (example_view [] []) (example_editor [Region 5 5]))"
  by (simp add: find_error_no_regions example_defs)

theorem no_errors_reported_by_guard_witness:
  "next_error \<lparr>settings = Map.empty, errors = Map.empty\<rparr> (example_view [] []) (example_editor [Region 5 5])
     = Inr \<lparr>selections = (\<lambda>h. if h = 1 then [Region 5 5] else []), shown = [],
            dialogs = [''No lint errors.'']\<rparr>
   \<and> previous_error \<lparr>settings = Map.empty, errors = Map.empty\<rparr> (example_view [] []) (example_editor [Region 5 5])
     = Inr \<lparr>selections = (\<lambda>h. if h = 1 then [Region 5 5] else []), shown = [],
            dialogs = [''No lint errors.'']\<rparr>"
  using no_errors_reported_by_guard [of "\<lparr>settings = Map.empty, errors = Map.empty\<rparr>"
      "example_view [] []" "example_editor [Region 5 5]"]
  by (simp add: error_message_def example_editor_def)

theorem wrap_to_first_or_last_witness:
  "(\<exists>e'. find_error (example_persist None) (example_view [Region 10 14, Region 40 44] [Region 20 25])
            True (example_editor [Region 41 41]) = Inr (Some (Region 10 14), e'))
   \<and> (\<exists>e'. find_error (example_persist None) (example_view [Region 10 14, Region 40 44] [Region 20 25])
            False (example_editor [Region 11 11]) = Inr (Some (Region 20 25), e'))"
proof -
  let ?v = "example_view [Region 10 14, Region 40 44] [Region 20 25]"
  let ?rs = "[Region 10 14, Region 40 44, Region 20 25]"
  have rs: "?rs = get_regions ?v WARNING @ get_regions ?v ERROR"
    by (simp add: example_defs)
  have len: "2 \<le> length ?rs" by simp
  have w: "settings_get (example_persist None) ''wrap_find'' True"
    by (simp add: settings_get_def example_defs)
  have a1: "anchor_point True (selections (example_editor [Region 41 41]) (sel_id ?v)) = Inr 41"
    by (simp add: example_anchor Region_def region_begin_def)
  have a2: "anchor_point False (selections (example_editor [Region 11 11]) (sel_id ?v)) = Inr 11"
    by (simp add: example_anchor Region_def region_end_def)
  have s1: "directional_scan True 41 ?rs = None"
    by (simp add: directional_scan_def Region_def region_begin_def)
  have s2: "directional_scan False 11 ?rs = None"
    by (simp add: directional_scan_def Region_def region_end_def)
  show ?thesis
    using wrap_to_first_or_last [OF rs len a1 s1 w] wrap_to_first_or_last [OF rs len a2 s2 w]
    by simp
qed


theorem failure_restores_selection_witness:
  "(\<exists>e'. find_error (example_persist (Some False))
            (example_view [Region 10 14, Region 40 44] [Region 20 25]) True
            (example_editor [Region 41 41, Region 50 52]) = Inr (None, e')
         \<and> selections e' 1 = [Region 41 41, Region 50 52]
         \<and> dialogs e' = [''No next lint errors.''])
   \<and> (\<exists>e'. previous_error \<lparr>settings = Map.empty, errors = (\<lambda>vid. Some [])\<rparr>
            (example_view [] []) (example_editor [Region 41 41]) = Inr e'
         \<and> selections e' = selections (example_editor [Region 41 41])
         \<and> dialogs e' = [''No lint errors.''])"
proof -
  let ?v = "example_view [Region 10 14, Region 40 44] [Region 20 25]"
  let ?e = "example_editor [Region 41 41, Region 50 52]"
  let ?p = "example_persist (Some False)"
  let ?rs = "[Region 10 14, Region 40 44, Region 20 25]"
  have rs: "?rs = get_regions ?v WARNING @ get_regions ?v ERROR"
    by (simp add: example_defs)
  have a: "anchor_point True (selections ?e (sel_id ?v)) = Inr 41"
    by (simp add: example_anchor Region_def region_begin_def)
  note T = failure_restores_selection [OF a rs, of ?p]
  have pre: "?rs \<noteq> [] \<and> directional_scan True 41 ?rs = None \<and>
            (\<not> settings_get ?p ''wrap_find'' True \<or> (length ?rs = 1 \<and> contains_point (hd ?rs) 41))"
    by (simp add: directional_scan_def Region_def region_begin_def settings_get_def example_defs)
  from T [THEN conjunct2, THEN conjunct1, rule_format, OF pre]
  obtain e' where e': "find_error ?p ?v True ?e = Inr (None, e')" by blast
  from T [THEN conjunct1, rule_format, OF e']
  have "selections e' 1 = [Region 41 41, Region 50 52] \<and> dialogs e' = [''No next lint errors.'']"
    by (simp add: example_defs)
  with e' have first: "\<exists>e'. find_error ?p ?v True ?e = Inr (None, e')
         \<and> selections e' 1 = [Region 41 41, Region 50 52]
         \<and> dialogs e' = [''No next lint errors.'']" by blast
  let ?v0 = "example_view [] []"
  let ?e0 = "example_editor [Region 41 41]"
  let ?p0 = "\<lparr>settings = Map.empty, errors = (\<lambda>vid. Some [])\<rparr>"
  have a0: "anchor_point False (selections ?e0 (sel_id ?v0)) = Inr 41"
    by (simp add: example_anchor Region_def region_end_def)
  have rs0: "[] = get_regions ?v0 WARNING @ get_regions ?v0 ERROR"
    by (simp add: example_defs)
  have "\<exists>e'. previous_error ?p0 ?v0 ?e0 = Inr e' \<and> selections e' = selections ?e0 \<and>
              dialogs e' = dialogs ?e0 @ [''No lint errors.'']"
    using failure_restores_selection [OF a0 rs0, of ?p0, THEN conjunct2, THEN conjunct2]
    by simp
  then have second: "\<exists>e'. previous_error ?p0 ?v0 ?e0 = Inr e' \<and> selections e' = selections ?e0 \<and>
              dialogs e' = [''No lint errors.'']"
    by (simp add: example_editor_def)
  from first second show ?thesis by blast
qed

subsection \<open>Marks and selection placement\<close>

lemma first_contained_index:
  "i < length ms \<Longrightarrow> contains_region r (ms ! i) \<Longrightarrow> (\<forall>j<i. \<not> contains_region r (ms ! j))
   \<Longrightarrow> first_contained r ms = Some (ms ! i)"
proof (induction ms arbitrary: i)
  case Nil
  then show ?case by simp
next
  case (Cons m ms)
  show ?case
  proof (cases i)
    case 0
    with Cons.prems show ?thesis by simp
  next
    case (Suc k)
    from Cons.prems Suc have "\<not> contains_region r m" by auto
    moreover have "first_contained r ms = Some (ms ! k)"
      using Cons.prems Suc by (intro Cons.IH) auto
    ultimately show ?thesis using Suc by simp
  qed
qed

lemma first_contained_None:
  "(\<forall>m\<in>set ms. \<not> contains_region r m) \<Longrightarrow> first_contained r ms = None"
  by (induction ms) auto

lemma select_lint_region_sel:
  "selections (select_lint_region v r e) (sel_id v) =
     [case find_mark_within v r of
        None \<Rightarrow> Region (region_begin r) (region_begin r) | Some m \<Rightarrow> m]"
  by (simp add: select_lint_region_def Let_def view_show_def sel_add_def sel_clear_def)

lemma find_error_Some_state:
  assumes "find_error p v forward e = Inr (Some r, e')"
  shows "e' = select_lint_region v r (collect_regions v e)"
proof -
  obtain a where a: "anchor_point forward (selections e (sel_id v)) = Inr a"
    using find_error_Inr_anchor [OF assms] by blast
  from assms show ?thesis
    unfolding find_error_unfold [OF a] by (auto split: sum.splits option.splits)
qed

text \<open>
  Claim C7. \<open>select_lint_region\<close> leaves as the selection the first mark, among all marks
  sorted by begin (a stable sort, as Python's), that the chosen region contains; when the
  region contains no mark the selection is the empty region at the begin of the chosen
  region. After a successful \<open>find_error\<close> the selection is the one \<open>select_lint_region\<close> makes.
\<close>
theorem select_lint_region_first_contained_mark:
  assumes "marks = sort_key region_begin (get_regions v WARNING @ get_regions v ERROR)"
  shows "sorted (map region_begin marks)
       \<and> set marks = set (get_regions v WARNING) \<union> set (get_regions v ERROR)
       \<and> (\<forall>i<length marks.
            contains_region r (marks ! i) \<and> (\<forall>j<i. \<not> contains_region r (marks ! j)) \<longrightarrow>
            selections (select_lint_region v r e) (sel_id v) = [marks ! i])
       \<and> ((\<forall>m\<in>set marks. \<not> contains_region r m) \<longrightarrow>
            selections (select_lint_region v r e) (sel_id v)
              = [Region (region_begin r) (region_begin r)])
       \<and> (\<forall>e'. find_error p v forward e = Inr (Some r, e') \<longrightarrow>
            selections e' (sel_id v) = selections (select_lint_region v r e) (sel_id v))"
proof (intro conjI allI impI)
  show "sorted (map region_begin marks)" by (simp add: assms)
  show "set marks = set (get_regions v WARNING) \<union> set (get_regions v ERROR)"
    by (simp add: assms)
next
  fix i assume "i < length marks"
    and "contains_region r (marks ! i) \<and> (\<forall>j<i. \<not> contains_region r (marks ! j))"
  then have "first_contained r marks = Some (marks ! i)"
    by (intro first_contained_index) auto
  then show "selections (select_lint_region v r e) (sel_id v) = [marks ! i]"
    by (simp add: select_lint_region_sel find_mark_within_def all_marks_def assms)
next
  assume "\<forall>m\<in>set marks. \<not> contains_region r m"
  then have "first_contained r marks = None" by (rule first_contained_None)
  then show "selections (select_lint_region v r e) (sel_id v)
               = [Region (region_begin r) (region_begin r)]"
    by (simp add: select_lint_region_sel find_mark_within_def all_marks_def assms)
next
  fix e' assume "find_error p v forward e = Inr (Some r, e')"
  from find_error_Some_state [OF this]
  show "selections e' (sel_id v) = selections (select_lint_region v r e) (sel_id v)"
    by (simp add: select_lint_region_sel)
qed

theorem select_lint_region_first_contained_mark_witness:
  "selections (select_lint_region (example_view [Region 30 32, Region 10 20] [Region 12 15, Region 10 11])
                 (Region 11 18) (example_editor [Region 0 0])) 1 = [Region 12 15]
   \<and> selections (select_lint_region (example_view [Region 30 32, Region 10 20] [Region 12 15, Region 10 11])
                 (Region 50 60) (example_editor [Region 0 0])) 1 = [Region 50 50]"
proof -
  let ?v = "example_view [Region 30 32, Region 10 20] [Region 12 15, Region 10 11]"
  let ?e = "example_editor [Region 0 0]"
  let ?marks = "[Region 10 20, Region 10 11, Region 12 15, Region 30 32]"
  have marks: "?marks = sort_key region_begin (get_regions ?v WARNING @ get_regions ?v ERROR)"
    by (simp add: example_defs Region_def region_begin_def)
  have sid: "sel_id ?v = 1" by (simp add: example_defs)
  have c: "contains_region (Region 11 18) (?marks ! 2) \<and>
           (\<forall>j<2. \<not> contains_region (Region 11 18) (?marks ! j))"
    by (simp add: contains_region_def contains_point_def Region_def region_begin_def
        region_end_def less_Suc_eq numeral_2_eq_2)
  have n: "\<forall>m\<in>set ?marks. \<not> contains_region (Region 50 60) m"
    by (simp add: contains_region_def contains_point_def Region_def region_begin_def region_end_def)
  have "selections (select_lint_region ?v (Region 11 18) ?e) (sel_id ?v) = [?marks ! 2]"
    using select_lint_region_first_contained_mark [OF marks, of "Region 11 18" ?e,
        THEN conjunct2, THEN conjunct2, THEN conjunct1, rule_format, of 2] c
    by simp
  moreover have "selections (select_lint_region ?v (Region 50 60) ?e) (sel_id ?v)
                   = [Region (region_begin (Region 50 60)) (region_begin (Region 50 60))]"
    using select_lint_region_first_contained_mark [OF marks, of "Region 50 60" ?e,
        THEN conjunct2, THEN conjunct2, THEN conjunct2, THEN conjunct1] n
    by blast
  ultimately show ?thesis
    by (simp add: sid) (simp add: Region_def region_begin_def)
qed

text \<open>
  Claim C10 describes what lines 52 and 53 are written for, and the code does not do it: with an
  empty selection the call \<^verbatim>\<open>sel.add((0, 0))\<close> raises, so \<open>find_error\<close> ends with \<open>TypeError\<close> in
  both directions, before any anchor is taken or any region is scanned, and the editor is as
  it was.
\<close>
theorem find_error_empty_selection_raises:
  "find_error (example_persist None) (example_view [Region 0 3, Region 5 8] []) True
     (example_editor []) = Inl (TypeError, example_editor [])
   \<and> find_error (example_persist None) (example_view [Region 0 3, Region 5 8] []) False
     (example_editor []) = Inl (TypeError, example_editor [])"
  by (simp add: find_error_empty_selection_fault example_defs)

section \<open>The report\<close>

lemma message_lines_entries:
  "message_lines line errs = concat (map entry_line (map (\<lambda>(col, error). (line, col, error)) errs))"
  by (induction errs) (auto simp: entry_line_def)

lemma item_lines_entries:
  "item_lines items =
     concat (map entry_line
       (concat (map (\<lambda>(line, errs). map (\<lambda>(col, error). (line, col, error)) errs) items)))"
  by (induction items) (auto simp: message_lines_entries)

lemma linter_lines_entries:
  "linter_lines l = concat (map entry_line (report_entries (linter_errors l)))"
  by (cases "linter_errors l = []")
     (simp_all add: linter_lines_def sorted_items_def item_lines_entries report_entries_def)

lemma linters_lines_entries:
  "linters_lines ls
     = concat (map (\<lambda>l. concat (map entry_line (report_entries (linter_errors l)))) ls)"
  by (induction ls) (simp_all add: linter_lines_entries)

lemma entries_lines_sorted:
  "sorted (map fst items) \<Longrightarrow>
   sorted (map fst (concat (map (\<lambda>(line, errs). map (\<lambda>(col, error). (line, col, error)) errs) items)))"
proof (induction items)
  case Nil
  then show ?case by simp
next
  case (Cons it items)
  obtain line errs where it: "it = (line, errs)" by (cases it)
  from Cons.prems have rest: "sorted (map fst items)" and le: "\<forall>x\<in>set items. line \<le> fst x"
    by (auto simp: it)
  have "sorted (map fst (map (\<lambda>(col, error). (line, col, error)) errs))"
    by (induction errs) auto
  moreover note Cons.IH [OF rest]
  moreover have "\<forall>x\<in>set (map (\<lambda>(col, error). (line, col, error)) errs).
      \<forall>y\<in>set (concat (map (\<lambda>(line, errs). map (\<lambda>(col, error). (line, col, error)) errs) items)).
        fst x \<le> fst y"
    using le by fastforce
  ultimately show ?case
    by (simp add: it sorted_append)
qed

lemma report_entries_sorted: "sorted (map fst (report_entries m))"
  unfolding report_entries_def by (rule entries_lines_sorted) simp

lemma entries_of_line:
  "distinct (map fst items) \<Longrightarrow> (k, errs) \<in> set items \<Longrightarrow>
   filter (\<lambda>en. fst en = k)
     (concat (map (\<lambda>(line, errs). map (\<lambda>(col, error). (line, col, error)) errs) items))
   = map (\<lambda>(col, error). (k, col, error)) errs"
proof (induction items)
  case Nil
  then show ?case by simp
next
  case (Cons it items)
  obtain line es where it: "it = (line, es)" by (cases it)
  have none: "\<And>xs. k \<notin> fst ` set xs \<Longrightarrow>
      filter (\<lambda>en. fst en = k)
        (concat (map (\<lambda>(line, errs). map (\<lambda>(col, error). (line, col, error)) errs) xs)) = []"
    by (auto simp: filter_empty_conv) force
  show ?case
  proof (cases "line = k")
    case True
    with Cons.prems it have notin: "k \<notin> fst ` set items" and "es = errs"
      by (auto simp: image_iff) 
    have "filter (\<lambda>en. fst en = k) (map (\<lambda>(col, error). (k, col, error)) errs)
            = map (\<lambda>(col, error). (k, col, error)) errs"
      by (induction errs) auto
    with True \<open>es = errs\<close> none [OF notin] show ?thesis by (simp add: it)
  next
    case False
    with Cons.prems it have "(k, errs) \<in> set items" and "distinct (map fst items)" by auto
    from Cons.IH [OF this(2,1)] False show ?thesis
      by (simp add: it)
  qed
qed

lemma distinct_map_insort_key:
  "distinct (map f (insort_key f x xs)) = (f x \<notin> f ` set xs \<and> distinct (map f xs))"
  by (induction xs) (auto simp: set_insort_key)

lemma distinct_map_sort_key: "distinct (map f (sort_key f xs)) = distinct (map f xs)"
  by (induction xs) (auto simp: distinct_map_insort_key)

lemma report_entries_of_line:
  assumes "distinct (map fst m)" and "(k, errs) \<in> set m"
  shows "filter (\<lambda>en. fst en = k) (report_entries m) = map (\<lambda>(col, error). (k, col, error)) errs"
proof -
  have "distinct (map fst (sort_key fst m))"
    using assms(1) by (simp add: distinct_map_sort_key)
  moreover have "(k, errs) \<in> set (sort_key fst m)" using assms(2) by simp
  ultimately show ?thesis unfolding report_entries_def by (rule entries_of_line)
qed

lemma insert_edit_clean:
  "\<forall>l\<in>set linters. linter_errors l = [] \<Longrightarrow> insert_edit linters output = Inr output"
  by (simp add: insert_edit_def list_ex_iff)

lemma insert_edit_results:
  "\<exists>l\<in>set (l0 # rest). linter_errors l \<noteq> [] \<Longrightarrow>
   insert_edit (l0 # rest) output = Inr (output @ header l0 @ linters_lines (l0 # rest))"
  by (simp add: insert_edit_def list_ex_iff del: linters_lines.simps)

text \<open>
  Claim C8, amended. Without results from any linter the output document is unchanged, and
  without linters nothing is queued. With results, the text appended is one fragment: the
  header (a newline, the basename of the first linter's file name or \<open>untitled\<close>, a colon, a
  newline) followed, linter by linter, by one line for each \<open>(line, column, message)\<close> entry;
  the entries of a linter are in ascending line order, and those of one line are its messages
  in the order produced.
\<close>
theorem insert_edit_fragment:
  "((\<forall>l\<in>set linters. linter_errors l = []) \<longrightarrow> insert_edit linters output = Inr output)
   \<and> finish_lint [] edits = edits
   \<and> (\<forall>l0 rest. linters = l0 # rest \<and> (\<exists>l\<in>set linters. linter_errors l \<noteq> []) \<longrightarrow>
        insert_edit linters output =
          Inr (output @ nl @ basename (filename_or_untitled l0) @ '':'' @ nl
                 @ concat (map (\<lambda>l. concat (map entry_line (report_entries (linter_errors l)))) linters)))
   \<and> (\<forall>l\<in>set linters. sorted (map fst (report_entries (linter_errors l))))
   \<and> (\<forall>l\<in>set linters. \<forall>k errs.
        distinct (map fst (linter_errors l)) \<and> (k, errs) \<in> set (linter_errors l) \<longrightarrow>
        filter (\<lambda>en. fst en = k) (report_entries (linter_errors l))
          = map (\<lambda>(col, error). (k, col, error)) errs)"
proof (intro conjI allI impI ballI)
  assume "\<forall>l\<in>set linters. linter_errors l = []"
  then show "insert_edit linters output = Inr output" by (rule insert_edit_clean)
next
  show "finish_lint [] edits = edits" by (simp add: finish_lint_def)
next
  fix l0 rest
  assume h: "linters = l0 # rest \<and> (\<exists>l\<in>set linters. linter_errors l \<noteq> [])"
  then have ex: "\<exists>l\<in>set (l0 # rest). linter_errors l \<noteq> []" and ls: "linters = l0 # rest"
    by auto
  have "insert_edit linters output = Inr (output @ header l0 @ linters_lines linters)"
    unfolding ls by (rule insert_edit_results [OF ex])
  moreover have "linters_lines linters
      = concat (map (\<lambda>l. concat (map entry_line (report_entries (linter_errors l)))) linters)"
    by (rule linters_lines_entries)
  ultimately show "insert_edit linters output =
          Inr (output @ nl @ basename (filename_or_untitled l0) @ '':'' @ nl
                 @ concat (map (\<lambda>l. concat (map entry_line (report_entries (linter_errors l)))) linters))"
    by (simp add: header_def)
next
  fix l show "sorted (map fst (report_entries (linter_errors l)))"
    by (rule report_entries_sorted)
next
  fix l k errs
  assume "distinct (map fst (linter_errors l)) \<and> (k, errs) \<in> set (linter_errors l)"
  then show "filter (\<lambda>en. fst en = k) (report_entries (linter_errors l))
          = map (\<lambda>(col, error). (k, col, error)) errs"
    by (intro report_entries_of_line) auto
qed

lemma folder_files_set:
  "set (folder_files st_size root files)
     = {path_join root name | name. name \<in> set files \<and> st_size (path_join root name) < 256 * 1024}"
  by (induction files) (auto simp: Let_def)

lemma folder_set:
  "set (folder st_size walk)
     = {path_join root name | root dirs files name.
          (root, dirs, files) \<in> set walk \<and> name \<in> set files \<and>
          st_size (path_join root name) < 256 * 1024}"
proof (induction walk)
  case Nil
  then show ?case by simp
next
  case (Cons w walk)
  obtain root dirs files where w: "w = (root, dirs, files)" by (cases w)
  show ?case
    unfolding w folder.simps set_append Cons.IH folder_files_set
    by (auto; blast)
qed

text \<open>
  Claim C9. In the folder walk a file of exactly 256 KiB - 1 bytes passes the size test of
  line 184, and a file of 256 KiB or more does not.
\<close>
theorem folder_size_filter:
  assumes "(root, dirs, files) \<in> set walk" and "name \<in> set files"
    and "path = path_join root name"
  shows "(st_size path = 256 * 1024 - 1 \<longrightarrow> path \<in> set (folder st_size walk))
       \<and> (256 * 1024 \<le> st_size path \<longrightarrow> path \<notin> set (folder st_size walk))"
proof (intro conjI impI)
  assume "st_size path = 256 * 1024 - 1"
  then have "st_size (path_join root name) < 256 * 1024" by (simp add: assms(3))
  with assms show "path \<in> set (folder st_size walk)"
    unfolding folder_set by blast
next
  assume big: "256 * 1024 \<le> st_size path"
  show "path \<notin> set (folder st_size walk)"
  proof
    assume "path \<in> set (folder st_size walk)"
    then have "st_size path < 256 * 1024" unfolding folder_set by auto
    with big show False by simp
  qed
qed


text \<open>
  Claim C8, as stated, fails on its example: for the error map \<open>{3: [x], 7: [y, z]}\<close> the
  fragment has three lines after the header, not two, since line 204 writes the line number
  once for each message. The lines are in ascending order within one linter only: a second
  linter with an error on line 2 adds its line after those of the first.
\<close>
theorem report_example_counterexample:
  "insert_edit [example_linter] []
     = Inr (nl @ ''a.py:'' @ nl @ ''  3: x'' @ nl @ ''  7: y'' @ nl @ ''  7: z'' @ nl)
   \<and> count_list (''  3: x'' @ nl @ ''  7: y'' @ nl @ ''  7: z'' @ nl) (CHR 0x0A) = 3
   \<and> insert_edit [example_linter, example_linter_b] []
     = Inr (nl @ ''a.py:'' @ nl @ ''  3: x'' @ nl @ ''  7: y'' @ nl @ ''  7: z'' @ nl
              @ ''  2: w'' @ nl)"
  by code_simp

theorem insert_edit_fragment_witness:
  "insert_edit [\<lparr>filename = Some ''/tmp/b.py'', linter_errors = []\<rparr>, \<lparr>filename = None, linter_errors = []\<rparr>]
     ''old'' = Inr ''old''
   \<and> insert_edit [example_linter_b, example_linter] ''old''
     = Inr (''old'' @ nl @ ''untitled:'' @ nl @ ''  2: w'' @ nl
              @ ''  3: x'' @ nl @ ''  7: y'' @ nl @ ''  7: z'' @ nl)
   \<and> map fst (report_entries (linter_errors example_linter)) = [3, 7, 7]
   \<and> filter (\<lambda>en. fst en = 7) (report_entries (linter_errors example_linter))
       = [(7, 0, ''y''), (7, 4, ''z'')]"
proof -
  let ?clean = "[\<lparr>filename = Some ''/tmp/b.py'', linter_errors = []\<rparr>, \<lparr>filename = None, linter_errors = []\<rparr>]"
  let ?ls = "[example_linter_b, example_linter]"
  have "insert_edit ?clean ''old'' = Inr ''old''"
    using insert_edit_fragment [of ?clean "''old''", THEN conjunct1] by simp
  moreover have "insert_edit ?ls ''old'' =
      Inr (''old'' @ nl @ basename (filename_or_untitled example_linter_b) @ '':'' @ nl
             @ concat (map (\<lambda>l. concat (map entry_line (report_entries (linter_errors l)))) ?ls))"
    using insert_edit_fragment [of ?ls "''old''", THEN conjunct2, THEN conjunct2, THEN conjunct1,
        rule_format, of example_linter_b "[example_linter]"]
    by (simp add: example_linter_b_def)
  moreover have "''old'' @ nl @ basename (filename_or_untitled example_linter_b) @ '':'' @ nl
             @ concat (map (\<lambda>l. concat (map entry_line (report_entries (linter_errors l)))) ?ls)
      = ''old'' @ nl @ ''untitled:'' @ nl @ ''  2: w'' @ nl
              @ ''  3: x'' @ nl @ ''  7: y'' @ nl @ ''  7: z'' @ nl"
    by code_simp
  moreover have "map fst (report_entries (linter_errors example_linter)) = [3, 7, 7]"
    by code_simp
  moreover have "filter (\<lambda>en. fst en = 7) (report_entries (linter_errors example_linter))
       = [(7, 0, ''y''), (7, 4, ''z'')]"
    using insert_edit_fragment [of "[example_linter]", THEN conjunct2, THEN conjunct2,
        THEN conjunct2, THEN conjunct2, rule_format, of example_linter 7 "[(0, ''y''), (4, ''z'')]"]
    by (simp add: example_linter_def)
  ultimately show ?thesis by simp
qed

theorem folder_size_filter_witness:
  "example_sizes ''/proj/a.py'' = 256 * 1024 - 1
   \<and> ''/proj/a.py'' \<in> set (folder example_sizes example_walk)
   \<and> example_sizes ''/proj/big.bin'' = 256 * 1024
   \<and> ''/proj/big.bin'' \<notin> set (folder example_sizes example_walk)"
proof -
  have m: "(''/proj'', [''sub''], [''a.py'', ''big.bin'']) \<in> set example_walk"
    by (simp add: example_walk_def)
  have a: "''/proj/a.py'' = path_join ''/proj'' ''a.py''"
    and b: "''/proj/big.bin'' = path_join ''/proj'' ''big.bin''"
    by (simp_all add: path_join_def)
  have sa: "example_sizes ''/proj/a.py'' = 256 * 1024 - 1"
    and sb: "example_sizes ''/proj/big.bin'' = 256 * 1024"
    by (simp_all add: example_sizes_def)
  have "''/proj/a.py'' \<in> set (folder example_sizes example_walk)"
    using folder_size_filter [OF m _ a, of example_sizes, THEN conjunct1] sa by simp
  moreover have "''/proj/big.bin'' \<notin> set (folder example_sizes example_walk)"
    using folder_size_filter [OF m _ b, of example_sizes, THEN conjunct2] sb by simp
  ultimately show ?thesis using sa sb by simp
qed

end
